theory Spec2Isabelle
  imports Complex_Main "HOL-Library.Word"
begin

unbundle bit_operations_syntax

section \<open>JavaScript values used by the crypto module\<close>

type_synonym byte = "8 word"

text \<open>
  A JavaScript number: every finite double is a rational. The module compares numbers
  with integer constants, rounds and truncates them, which is exact, and divides
  \<open>extractLen\<close> by 64, which is exact too unless the quotient underflows; that takes an
  \<open>extractLen\<close> below \<open>2 ^ -1068\<close>, for which the output is cut to zero bytes anyway.
\<close>

datatype jsnum = NaN | PosInf | NegInf | Finite rat

text \<open>
  The values a caller can pass: \<open>typeof v === 'number'\<close> holds for \<open>Number\<close> only,
  \<open>v instanceof Uint8Array\<close> for \<open>Uint8Array\<close> only; \<open>Other\<close> stands for every other
  value (strings, plain arrays, objects, null).
\<close>

datatype jsval = Undefined | Number jsnum | Uint8Array "byte list" | Other

text \<open>A thrown exception: its class and its message.\<close>

datatype error = Error string | RangeError string

text \<open>\<open>x < c\<close> and \<open>x > c\<close> on numbers; every comparison with NaN is false.\<close>

fun num_lt :: "jsnum \<Rightarrow> rat \<Rightarrow> bool" where
  "num_lt (Finite q) c = (q < c)"
| "num_lt NegInf c = True"
| "num_lt PosInf c = False"
| "num_lt NaN c = False"

fun num_gt :: "jsnum \<Rightarrow> rat \<Rightarrow> bool" where
  "num_gt (Finite q) c = (q > c)"
| "num_gt PosInf c = True"
| "num_gt NegInf c = False"
| "num_gt NaN c = False"

text \<open>
  Storing a number into a \<open>Uint8Array\<close> element (ToUint8): NaN and the infinities give 0,
  a finite number is truncated towards zero and reduced modulo 256.
\<close>

definition trunc :: "rat \<Rightarrow> int" where
  "trunc q = (if 0 \<le> q then \<lfloor>q\<rfloor> else \<lceil>q\<rceil>)"

fun to_uint8 :: "jsnum \<Rightarrow> byte" where
  "to_uint8 (Finite q) = word_of_int (trunc q)"
| "to_uint8 NaN = 0"
| "to_uint8 PosInf = 0"
| "to_uint8 NegInf = 0"

section \<open>Typed-array operations\<close>

text \<open>\<open>for (i = 0; i < n; i++) buf[i] = v\<close>; a write past the end of a typed array is ignored.\<close>

definition fill_loop :: "nat \<Rightarrow> byte \<Rightarrow> byte list \<Rightarrow> byte list" where
  "fill_loop n v buf = fold (\<lambda>i b. b[i := v]) [0..<n] buf"

text \<open>
  \<open>for (i = 0; i < key.length; i++) buf[i] ^= key[i]\<close>; past the end of \<open>buf\<close> the read
  gives undefined and the write is ignored, so the buffer is unchanged there.
\<close>

definition xor_loop :: "byte list \<Rightarrow> byte list \<Rightarrow> byte list" where
  "xor_loop key buf =
     fold (\<lambda>i b. if i < length b then b[i := (b ! i) XOR (key ! i)] else b) [0..<length key] buf"

text \<open>\<open>buf.set(src, off)\<close>: throws a RangeError when the source does not fit.\<close>

definition set_at :: "byte list \<Rightarrow> byte list \<Rightarrow> nat \<Rightarrow> error + byte list" where
  "set_at buf src off =
     (if off + length src \<le> length buf
      then Inr (take off buf @ src @ drop (off + length src) buf)
      else Inl (RangeError ''offset is out of bounds''))"

text \<open>\<open>buf.subarray(b, e)\<close>, both ends clamped to the buffer.\<close>

definition subarray :: "byte list \<Rightarrow> nat \<Rightarrow> nat \<Rightarrow> byte list" where
  "subarray buf b e = drop b (take e buf)"

section \<open>HMAC\<close>

definition BLOCK_SIZE :: nat where "BLOCK_SIZE = 128"
definition HASH_SIZE :: nat where "HASH_SIZE = 64"

text \<open>
  \<open>hmac(message, key)\<close>. The hash \<open>nacl.hash\<close> belongs to the tweetnacl library and is a
  parameter here.
\<close>

definition hmac :: "(byte list \<Rightarrow> byte list) \<Rightarrow> jsval \<Rightarrow> jsval \<Rightarrow> error + byte list" where
  "hmac nacl_hash message key =
     (case (message, key) of
        (Uint8Array msg, Uint8Array key0) \<Rightarrow>
          let buf0 = replicate (BLOCK_SIZE + max HASH_SIZE (length msg)) 0;
              k = (if length key0 > BLOCK_SIZE then nacl_hash key0 else key0);
              buf1 = xor_loop k (fill_loop BLOCK_SIZE 0x36 buf0)
          in (case set_at buf1 msg BLOCK_SIZE of
                Inl e \<Rightarrow> Inl e
              | Inr buf2 \<Rightarrow>
                  let innerHash = nacl_hash (subarray buf2 0 (BLOCK_SIZE + length msg));
                      buf3 = xor_loop k (fill_loop BLOCK_SIZE 0x5c buf2)
                  in (case set_at buf3 innerHash BLOCK_SIZE of
                        Inl e \<Rightarrow> Inl e
                      | Inr buf4 \<Rightarrow>
                          Inr (nacl_hash (subarray buf4 0 (BLOCK_SIZE + length innerHash)))))
      | _ \<Rightarrow> Inl (Error ''Inputs must be Uint8Arrays.''))"

text \<open>The contract of the library's hash, as the specification states it: a 512-bit digest.\<close>

definition hash512 :: "(byte list \<Rightarrow> byte list) \<Rightarrow> bool" where
  "hash512 h = (\<forall>m. length (h m) = 64)"

text \<open>
  The textbook construction, for comparison with \<open>hmac\<close>: the key is hashed when longer
  than a block and zero-extended to 128 bytes; the pads are the key XORed with 128 bytes
  of \<open>0x36\<close> and of \<open>0x5c\<close>.
\<close>

definition block_key :: "(byte list \<Rightarrow> byte list) \<Rightarrow> byte list \<Rightarrow> byte list" where
  "block_key h key =
     (let k = (if length key > 128 then h key else key) in k @ replicate (128 - length k) 0)"

definition hmac_standard :: "(byte list \<Rightarrow> byte list) \<Rightarrow> byte list \<Rightarrow> byte list \<Rightarrow> byte list" where
  "hmac_standard h message key =
     h (map (\<lambda>b. b XOR 0x5c) (block_key h key)
        @ h (map (\<lambda>b. b XOR 0x36) (block_key h key) @ message))"

section \<open>HKDF\<close>

text \<open>
  The loop \<open>for (i = 1; i <= n; ++i)\<close> of \<open>getHKDF\<close>. The array \<open>t\<close> holds the blocks;
  \<open>input\<close> is \<open>t[i - 1].concat(info).concat([i])\<close> as \<open>new Uint8Array(input)\<close> stores it:
  the bytes of the previous block, each number of \<open>info\<close> converted to a byte, and the
  counter.
\<close>

function expand_loop ::
  "(byte list \<Rightarrow> byte list) \<Rightarrow> jsnum list \<Rightarrow> byte list \<Rightarrow> nat \<Rightarrow> nat \<Rightarrow> byte list list
     \<Rightarrow> byte list \<Rightarrow> error + byte list" where
  "expand_loop nacl_hash info prk n i t okm =
     (if i \<le> n then
        (let input = (t ! (i - 1)) @ map to_uint8 info @ [of_nat i] in
         case hmac nacl_hash (Uint8Array input) (Uint8Array prk) of
           Inl e \<Rightarrow> Inl e
         | Inr ti \<Rightarrow> expand_loop nacl_hash info prk n (i + 1) (t[i := ti]) (okm @ ti))
      else Inr okm)"
  by pat_completeness auto
termination
  by (relation "measure (\<lambda>(h, info, prk, n, i, t, okm). n + 1 - i)") auto

declare expand_loop.simps [simp del]

text \<open>
  \<open>getHKDF(ikm, info, extractLen, salt)\<close>. After the range check \<open>extractLen\<close> is NaN or
  a finite number in \<open>[0, 16320]\<close>; for NaN, \<open>Math.ceil\<close> gives NaN and \<open>new Array(NaN)\<close>
  throws the engine's RangeError. \<open>t\<close> has \<open>n + 1\<close> slots, of which only slot 0 is
  filled before the loop. \<open>okm.slice(0, extractLen)\<close> truncates its bound to an integer.
\<close>

definition getHKDF ::
  "(byte list \<Rightarrow> byte list) \<Rightarrow> jsval \<Rightarrow> jsnum list \<Rightarrow> jsval \<Rightarrow> jsval \<Rightarrow> error + byte list" where
  "getHKDF nacl_hash ikm info extractLen salt =
     (let hashLength = 64 in
      case extractLen of
        Number x \<Rightarrow>
          if num_lt x 0 \<or> num_gt x (of_nat (hashLength * 255))
          then Inl (Error ''Invalid extract length.'')
          else
            let salt' = (case salt of Uint8Array s \<Rightarrow> salt
                         | _ \<Rightarrow> Uint8Array (replicate hashLength 0)) in
            (case hmac nacl_hash ikm salt' of
               Inl e \<Rightarrow> Inl e
             | Inr prk \<Rightarrow>
                 (case x of
                    Finite q \<Rightarrow>
                      let n = nat \<lceil>q / of_nat hashLength\<rceil>;
                          t = (replicate (n + 1) [])[0 := []]
                      in (case expand_loop nacl_hash info prk n 1 t [] of
                            Inl e \<Rightarrow> Inl e
                          | Inr okm \<Rightarrow> Inr (take (nat (trunc q)) okm))
                  | _ \<Rightarrow> Inl (RangeError ''Invalid array length'')))
      | _ \<Rightarrow> Inl (Error ''Invalid extract length.''))"

section \<open>Key derivation\<close>

definition HKDF_SALT :: "byte list" where
  "HKDF_SALT = [72, 203, 156, 43, 64, 229, 225, 127, 214, 158, 50, 29, 130, 186, 182, 207,
     6, 108, 47, 254, 245, 71, 198, 109, 44, 108, 32, 193, 221, 126, 119, 143,
     112, 113, 87, 184, 239, 231, 230, 234, 28, 135, 54, 42, 9, 243, 39, 30,
     179, 147, 194, 211, 212, 239, 225, 52, 192, 219, 145, 40, 95, 19, 142, 98]"

text \<open>
  Modelled from the spec: the library constants \<open>nacl.lowlevel.crypto_sign_SEEDBYTES\<close>,
  \<open>nacl.secretbox.keyLength\<close> and \<open>nacl.secretbox.nonceLength\<close> are not in the
  repository; the spec gives 32, 32 and 24.
\<close>

definition crypto_sign_SEEDBYTES :: nat where "crypto_sign_SEEDBYTES = 32"
definition secretbox_keyLength :: nat where "secretbox_keyLength = 32"
definition secretbox_nonceLength :: nat where "secretbox_nonceLength = 24"

text \<open>\<open>Number.prototype.toString(16)\<close> on a non-negative integer, and on any integer.\<close>

definition hexDigit :: "nat \<Rightarrow> char" where
  "hexDigit d = ''0123456789abcdef'' ! d"

function toString16 :: "nat \<Rightarrow> string" where
  "toString16 n =
     (if n < 16 then [hexDigit n] else toString16 (n div 16) @ [hexDigit (n mod 16)])"
  by pat_completeness auto
termination
  by (relation "measure id") auto

declare toString16.simps [simp del]

definition int_toString16 :: "int \<Rightarrow> string" where
  "int_toString16 t =
     (if t < 0 then CHR ''-'' # toString16 (nat (- t)) else toString16 (nat t))"

record keys =
  publicKey :: "byte list"
  secretKey :: "byte list"
  fingerprint :: string
  secretboxKey :: "byte list"

text \<open>The body of \<open>result.publicKey.forEach\<close>: one byte appended to the fingerprint.\<close>

definition fingerprint_step :: "string \<Rightarrow> byte \<Rightarrow> string" where
  "fingerprint_step fp b =
     (let char = toString16 (unat b);
          char' = (if length char = 1 then CHR ''0'' # char else char)
      in fp @ char')"

text \<open>
  \<open>deriveKeys(seed)\<close>. \<open>nacl.sign.keyPair.fromSeed\<close> is the library's and a parameter:
  it gives the public and the secret key.
\<close>

definition deriveKeys ::
  "(byte list \<Rightarrow> byte list) \<Rightarrow> (byte list \<Rightarrow> byte list \<times> byte list) \<Rightarrow> jsval \<Rightarrow> error + keys" where
  "deriveKeys nacl_hash fromSeed seed =
     (case seed of
        Uint8Array s \<Rightarrow>
          (case getHKDF nacl_hash seed [Finite 0] (Number (Finite (of_nat crypto_sign_SEEDBYTES)))
                  (Uint8Array HKDF_SALT) of
             Inl e \<Rightarrow> Inl e
           | Inr output \<Rightarrow>
               let (pk, sk) = fromSeed output;
                   fp = foldl fingerprint_step [] pk
               in (case getHKDF nacl_hash seed [Finite 1]
                          (Number (Finite (of_nat secretbox_keyLength))) (Uint8Array HKDF_SALT) of
                     Inl e \<Rightarrow> Inl e
                   | Inr sbk \<Rightarrow>
                       Inr \<lparr>publicKey = pk, secretKey = sk, fingerprint = fp,
                            secretboxKey = sbk\<rparr>))
      | _ \<Rightarrow> Inl (Error ''Seed must be Uint8Array.''))"

text \<open>\<open>seed instanceof Uint8Array\<close>, the only check \<open>deriveKeys\<close> makes on its input.\<close>

fun is_Uint8Array :: "jsval \<Rightarrow> bool" where
  "is_Uint8Array (Uint8Array s) = True"
| "is_Uint8Array _ = False"

section \<open>Nonce\<close>

text \<open>\<open>while (hexTime.length < 12) hexTime = '0' + hexTime\<close>\<close>

function pad_loop :: "string \<Rightarrow> string" where
  "pad_loop hexTime = (if length hexTime < 12 then pad_loop (CHR ''0'' # hexTime) else hexTime)"
  by pat_completeness auto
termination
  by (relation "measure (\<lambda>s. 12 - length s)") auto

declare pad_loop.simps [simp del]

text \<open>The value of a hexadecimal digit, of either case.\<close>

definition hexVal :: "char \<Rightarrow> nat option" where
  "hexVal c =
     (let n = (of_char c :: nat) in
      if 48 \<le> n \<and> n \<le> 57 then Some (n - 48)
      else if 97 \<le> n \<and> n \<le> 102 then Some (n - 87)
      else if 65 \<le> n \<and> n \<le> 70 then Some (n - 55)
      else None)"

text \<open>\<open>s[k]\<close>: undefined past the end of the string.\<close>

definition char_at :: "string \<Rightarrow> nat \<Rightarrow> char option" where
  "char_at s k = (if k < length s then Some (s ! k) else None)"

text \<open>
  \<open>Number('0x' + a + b)\<close> for two characters of \<open>hexTime\<close> (digits, \<open>a\<close> to \<open>f\<close> or the
  minus sign): the value of the two hexadecimal digits, NaN when one of them is not a
  digit or is undefined.
\<close>

definition Number_0x :: "char option \<Rightarrow> char option \<Rightarrow> jsnum" where
  "Number_0x a b =
     (case (a, b) of
        (Some x, Some y) \<Rightarrow>
          (case (hexVal x, hexVal y) of
             (Some u, Some v) \<Rightarrow> Finite (of_nat (16 * u + v))
           | _ \<Rightarrow> NaN)
      | _ \<Rightarrow> NaN)"

text \<open>\<open>while (i < 6) { nonce[5 + i] = Number(...); i++ }\<close>\<close>

function time_loop :: "string \<Rightarrow> nat \<Rightarrow> byte list \<Rightarrow> byte list" where
  "time_loop hexTime i nonce =
     (if i < 6 then
        time_loop hexTime (i + 1)
          (nonce[5 + i := to_uint8 (Number_0x (char_at hexTime (2 * i)) (char_at hexTime (2 * i + 1)))])
      else nonce)"
  by pat_completeness auto
termination
  by (relation "measure (\<lambda>(h, i, nonce). 6 - i)") auto

declare time_loop.simps [simp del]

text \<open>
  \<open>getNonce(deviceId)\<close>. The two reads of the environment are parameters: \<open>time\<close> is
  what \<open>(new Date()).getTime()\<close> returns, an integer number of milliseconds, and
  \<open>randomBytes\<close> is \<open>nacl.randomBytes\<close>.
\<close>

definition getNonce :: "(nat \<Rightarrow> byte list) \<Rightarrow> int \<Rightarrow> jsval \<Rightarrow> error + byte list" where
  "getNonce randomBytes time deviceId =
     (case deviceId of
        Number d \<Rightarrow>
          if num_lt d 0 \<or> num_gt d 255 then Inl (Error ''Invalid device ID'')
          else
            let nonce0 = replicate secretbox_nonceLength (0 :: byte) in
            if time > 256 ^ 6 then Inl (Error ''Timestamp is too far in the future.'')
            else
              let nonce1 = nonce0[0 := to_uint8 d] in
              (case set_at nonce1 (randomBytes 4) 1 of
                 Inl e \<Rightarrow> Inl e
               | Inr nonce2 \<Rightarrow>
                   let hexTime = pad_loop (int_toString16 time)
                   in Inr (time_loop hexTime 0 nonce2))
      | _ \<Rightarrow> Inl (Error ''Invalid device ID''))"

text \<open>
  The guard of \<open>getNonce\<close> as a predicate: the device id passes when it is a number
  and neither \<open>deviceId < 0\<close> nor \<open>deviceId > 255\<close> holds.
\<close>

definition valid_deviceId :: "jsval \<Rightarrow> bool" where
  "valid_deviceId v = (case v of Number d \<Rightarrow> \<not> (num_lt d 0 \<or> num_gt d 255) | _ \<Rightarrow> False)"

section \<open>Encryption\<close>

record envelope =
  nonce :: "byte list"
  ciphertext :: "byte list"

text \<open>
  \<open>encrypt(message, secretboxKey, deviceId)\<close>; \<open>nacl.secretbox\<close> is a parameter.
\<close>

definition encrypt ::
  "(byte list \<Rightarrow> byte list \<Rightarrow> byte list \<Rightarrow> byte list) \<Rightarrow> (nat \<Rightarrow> byte list) \<Rightarrow> int
     \<Rightarrow> byte list \<Rightarrow> byte list \<Rightarrow> jsval \<Rightarrow> error + envelope" where
  "encrypt secretbox randomBytes time message key deviceId =
     (case getNonce randomBytes time deviceId of
        Inl e \<Rightarrow> Inl e
      | Inr n \<Rightarrow> Inr \<lparr>nonce = n, ciphertext = secretbox message n key\<rparr>)"

text \<open>
  \<open>decrypt(ciphertext, nonce, secretboxKey)\<close>; \<open>nacl.secretbox.open\<close> is a parameter. It
  returns the plaintext or, when verification fails, \<open>false\<close>, which is \<open>None\<close> here.
\<close>

definition decrypt ::
  "(byte list \<Rightarrow> byte list \<Rightarrow> byte list \<Rightarrow> byte list option) \<Rightarrow> byte list \<Rightarrow> byte list
     \<Rightarrow> byte list \<Rightarrow> byte list option" where
  "decrypt secretbox_open c n key = secretbox_open c n key"

section \<open>Reference definitions\<close>

text \<open>
  HKDF as the RFC gives it, on top of \<open>hmac_standard\<close> (message first, key second):
  the blocks \<open>T[0] = empty\<close>, \<open>T[i] = HMAC(T[i-1] ++ info ++ [i], PRK)\<close>, and the output
  \<open>T[1] ++ ... ++ T[n]\<close> with \<open>n = ceil(L / 64)\<close>, cut to \<open>L\<close> bytes.
\<close>

fun T_block :: "(byte list \<Rightarrow> byte list) \<Rightarrow> byte list \<Rightarrow> byte list \<Rightarrow> nat \<Rightarrow> byte list" where
  "T_block h prk info 0 = []"
| "T_block h prk info (Suc i) =
     hmac_standard h (T_block h prk info i @ info @ [of_nat (Suc i)]) prk"

definition hkdf_expand ::
  "(byte list \<Rightarrow> byte list) \<Rightarrow> byte list \<Rightarrow> byte list \<Rightarrow> nat \<Rightarrow> byte list" where
  "hkdf_expand h prk info L =
     take L (concat (map (T_block h prk info) [1..<Suc ((L + 63) div 64)]))"

text \<open>Extract with the salt as the HMAC key and the input keying material as the message.\<close>

definition hkdf ::
  "(byte list \<Rightarrow> byte list) \<Rightarrow> byte list \<Rightarrow> byte list \<Rightarrow> nat \<Rightarrow> byte list \<Rightarrow> byte list" where
  "hkdf h ikm info L salt = hkdf_expand h (hmac_standard h ikm salt) info L"

text \<open>
  Extract read with the argument order of \<open>hmac(message, key)\<close> kept, as
  \<open>PRK = HMAC(salt, ikm)\<close> is written: the salt as the message, keyed by the input keying
  material.
\<close>

definition hkdf_salt_as_message ::
  "(byte list \<Rightarrow> byte list) \<Rightarrow> byte list \<Rightarrow> byte list \<Rightarrow> nat \<Rightarrow> byte list \<Rightarrow> byte list" where
  "hkdf_salt_as_message h ikm info L salt = hkdf_expand h (hmac_standard h salt ikm) info L"

text \<open>The salt of the extract step: the caller's, or 64 zero bytes when none is supplied.\<close>

definition salt_bytes :: "jsval \<Rightarrow> byte list" where
  "salt_bytes salt = (case salt of Uint8Array s \<Rightarrow> s | _ \<Rightarrow> replicate 64 0)"

text \<open>Lowercase hexadecimal, two digits a byte, and its decoder.\<close>

definition hex2 :: "byte \<Rightarrow> string" where
  "hex2 b = [hexDigit (unat b div 16), hexDigit (unat b mod 16)]"

definition lowercase_hex :: "byte list \<Rightarrow> string" where
  "lowercase_hex bs = concat (map hex2 bs)"

definition is_lower_hex :: "char \<Rightarrow> bool" where
  "is_lower_hex c = (c \<in> set ''0123456789abcdef'')"

fun hex_decode :: "string \<Rightarrow> byte list option" where
  "hex_decode [] = Some []"
| "hex_decode [a] = None"
| "hex_decode (a # b # cs) =
     (case (hexVal a, hexVal b, hex_decode cs) of
        (Some u, Some v, Some bs) \<Rightarrow> Some (of_nat (16 * u + v) # bs)
      | _ \<Rightarrow> None)"

text \<open>The steps of the key derivation, on the reference HKDF.\<close>

definition deriveKeys_reference ::
  "(byte list \<Rightarrow> byte list) \<Rightarrow> (byte list \<Rightarrow> byte list \<times> byte list) \<Rightarrow> byte list \<Rightarrow> keys" where
  "deriveKeys_reference h fromSeed seed =
     (let signingSeed = hkdf h seed [0] 32 HKDF_SALT;
          kp = fromSeed signingSeed
      in \<lparr>publicKey = fst kp, secretKey = snd kp, fingerprint = lowercase_hex (fst kp),
           secretboxKey = hkdf h seed [1] 32 HKDF_SALT\<rparr>)"

text \<open>A millisecond count as a 48-bit big-endian integer: six bytes, the highest first.\<close>

definition be48 :: "int \<Rightarrow> byte list" where
  "be48 t = map (\<lambda>i. word_of_int (t div 256 ^ (5 - i))) [0..<6]"

text \<open>Reading bytes as a big-endian integer.\<close>

definition be_value :: "byte list \<Rightarrow> int" where
  "be_value bs = foldl (\<lambda>a b. 256 * a + uint b) 0 bs"

text \<open>
  A number below \<open>16 ^ k\<close> in exactly \<open>k\<close> hexadecimal digits, the highest first, and
  the two digits of the lowest byte of a number.
\<close>

fun hex_fixed :: "nat \<Rightarrow> nat \<Rightarrow> string" where
  "hex_fixed 0 n = []"
| "hex_fixed (Suc k) n = hex_fixed k (n div 16) @ [hexDigit (n mod 16)]"

definition byte_hex :: "nat \<Rightarrow> string" where
  "byte_hex m = [hexDigit ((m div 16) mod 16), hexDigit (m mod 16)]"

text \<open>
  The contracts of the other library functions, as the specification lists the consumed
  primitives: a public key of 32 bytes, as many random bytes as asked for, and an \<open>open\<close>
  that returns the plaintext of a box made with the same 24-byte nonce and 32-byte key.
\<close>

definition keypair32 :: "(byte list \<Rightarrow> byte list \<times> byte list) \<Rightarrow> bool" where
  "keypair32 fromSeed = (\<forall>s. length (fst (fromSeed s)) = 32)"

definition random_source :: "(nat \<Rightarrow> byte list) \<Rightarrow> bool" where
  "random_source randomBytes = (\<forall>n. length (randomBytes n) = n)"

definition opens ::
  "(byte list \<Rightarrow> byte list \<Rightarrow> byte list \<Rightarrow> byte list)
     \<Rightarrow> (byte list \<Rightarrow> byte list \<Rightarrow> byte list \<Rightarrow> byte list option) \<Rightarrow> bool" where
  "opens secretbox secretbox_open =
     (\<forall>m n k. length n = 24 \<and> length k = 32
        \<longrightarrow> secretbox_open (secretbox m n k) n k = Some m)"

section \<open>Stand-ins for the library, to run the definitions on concrete inputs\<close>

text \<open>
  None of these is cryptography: a checksum with a 64-byte output, a key pair copied
  from the seed, a box that prepends a 16-byte tag made from key and nonce, and a
  counter in place of the random source.
\<close>

definition demo_hash :: "byte list \<Rightarrow> byte list" where
  "demo_hash m = (let c = foldl (\<lambda>a b. 31 * a + b + 1) 7 m in map (\<lambda>i. c + of_nat i) [0..<64])"

definition demo_fromSeed :: "byte list \<Rightarrow> byte list \<times> byte list" where
  "demo_fromSeed s = (take 32 (map (\<lambda>b. b + 1) s @ replicate 32 0), s)"

definition demo_tag :: "byte list \<Rightarrow> byte list \<Rightarrow> byte list" where
  "demo_tag n k = take 16 (map2 (XOR) n k @ replicate 16 0)"

definition demo_secretbox :: "byte list \<Rightarrow> byte list \<Rightarrow> byte list \<Rightarrow> byte list" where
  "demo_secretbox m n k = demo_tag n k @ m"

definition demo_open :: "byte list \<Rightarrow> byte list \<Rightarrow> byte list \<Rightarrow> byte list option" where
  "demo_open c n k =
     (if 16 \<le> length c \<and> take 16 c = demo_tag n k then Some (drop 16 c) else None)"

definition demo_randomBytes :: "nat \<Rightarrow> byte list" where
  "demo_randomBytes n = map of_nat [1..<Suc n]"

section \<open>The buffer loops of \<open>hmac\<close>\<close>

lemma fill_loop_eq:
  "n \<le> length buf \<Longrightarrow> fill_loop n v buf = replicate n v @ drop n buf"
  unfolding fill_loop_def
proof (induction n)
  case 0
  then show ?case by simp
next
  case (Suc n)
  then have "fold (\<lambda>i b. b[i := v]) [0..<Suc n] buf = (replicate n v @ drop n buf)[n := v]"
    by simp
  also have "\<dots> = replicate n v @ (drop n buf)[0 := v]"
    by (simp add: list_update_append)
  also have "(drop n buf)[0 := v] = v # drop (Suc n) buf"
    using Suc.prems by (simp add: Cons_nth_drop_Suc[symmetric])
  finally show ?case by (simp add: replicate_append_same)
qed

lemma xor_fold_eq:
  "n \<le> length key \<Longrightarrow> n \<le> length buf \<Longrightarrow>
   fold (\<lambda>i b. if i < length b then b[i := (b ! i) XOR (key ! i)] else b) [0..<n] buf
     = map2 (XOR) (take n buf) (take n key) @ drop n buf"
proof (induction n)
  case 0
  then show ?case by simp
next
  case (Suc n)
  let ?r = "map2 (XOR) (take n buf) (take n key)"
  have len: "length ?r = n" using Suc.prems by simp
  have "fold (\<lambda>i b. if i < length b then b[i := (b ! i) XOR (key ! i)] else b) [0..<Suc n] buf
        = (?r @ drop n buf)[n := ((?r @ drop n buf) ! n) XOR (key ! n)]"
    using Suc by simp
  also have "\<dots> = ?r @ (drop n buf)[0 := (buf ! n) XOR (key ! n)]"
    using Suc.prems len by (simp add: list_update_append nth_append)
  also have "(drop n buf)[0 := (buf ! n) XOR (key ! n)] = ((buf ! n) XOR (key ! n)) # drop (Suc n) buf"
    using Suc.prems by (simp add: Cons_nth_drop_Suc[symmetric])
  finally show ?case using Suc.prems
    by (simp add: take_Suc_conv_app_nth)
qed

lemma xor_loop_eq:
  "length key \<le> length buf \<Longrightarrow>
   xor_loop key buf = map2 (XOR) (take (length key) buf) key @ drop (length key) buf"
  unfolding xor_loop_def using xor_fold_eq[of "length key" key buf] by simp

lemma map2_xor_replicate:
  "map2 (XOR) (replicate (length k) c) k = map (\<lambda>b. b XOR c) k"
  by (induction k) (simp_all add: xor.commute)

lemma pad_eq:
  assumes "length k \<le> 128" "128 \<le> length buf"
  shows "xor_loop k (fill_loop 128 c buf)
         = map (\<lambda>b. b XOR c) (k @ replicate (128 - length k) 0) @ drop 128 buf"
proof -
  have f: "fill_loop 128 c buf = replicate 128 c @ drop 128 buf"
    using assms by (simp add: fill_loop_eq)
  have "xor_loop k (replicate 128 c @ drop 128 buf)
        = map2 (XOR) (replicate (length k) c) k @ replicate (128 - length k) c @ drop 128 buf"
    using assms by (simp add: xor_loop_eq min_def)
  then show ?thesis by (simp add: f map2_xor_replicate)
qed

lemma length_fill_loop [simp]: "length (fill_loop n v buf) = length buf"
proof -
  have "length (fold (\<lambda>i b. b[i := v]) is buf) = length buf" for "is"
    by (induction "is" arbitrary: buf) simp_all
  then show ?thesis by (simp add: fill_loop_def)
qed

lemma length_xor_loop [simp]: "length (xor_loop key buf) = length buf"
proof -
  have "length (fold (\<lambda>i b. if i < length b then b[i := (b ! i) XOR (key ! i)] else b) is buf)
        = length buf" for "is"
    by (induction "is" arbitrary: buf) simp_all
  then show ?thesis by (simp add: xor_loop_def)
qed

lemma length_block_key: "hash512 h \<Longrightarrow> length (block_key h key) = 128"
  by (simp add: block_key_def hash512_def Let_def)

lemma hmac_bytes:
  assumes h: "hash512 h"
  shows "hmac h (Uint8Array m) (Uint8Array key) = Inr (hmac_standard h m key)"
proof -
  define k where "k = (if length key > 128 then h key else key)"
  define buf0 :: "byte list" where "buf0 = replicate (128 + max 64 (length m)) 0"
  define ipad where "ipad = map (\<lambda>b. b XOR 0x36) (block_key h key)"
  define opad where "opad = map (\<lambda>b. b XOR 0x5c) (block_key h key)"
  define buf1 where "buf1 = xor_loop k (fill_loop 128 0x36 buf0)"
  define buf2 where "buf2 = ipad @ m @ drop (128 + length m) buf1"
  define inner where "inner = h (ipad @ m)"
  define buf3 where "buf3 = xor_loop k (fill_loop 128 0x5c buf2)"
  have klen: "length k \<le> 128" using h by (simp add: k_def hash512_def)
  have bk: "block_key h key = k @ replicate (128 - length k) 0"
    by (simp add: block_key_def k_def Let_def)
  have l0: "length buf0 = 128 + max 64 (length m)" by (simp add: buf0_def)
  have lip: "length ipad = 128" "length opad = 128"
    using h by (simp_all add: ipad_def opad_def length_block_key)
  have b1: "buf1 = ipad @ drop 128 buf0"
    unfolding buf1_def ipad_def bk using klen l0 by (intro pad_eq) simp_all
  have l1: "length buf1 = length buf0" by (simp add: buf1_def)
  have s1: "set_at buf1 m 128 = Inr buf2"
    using l1 l0 lip by (simp add: set_at_def buf2_def b1)
  have l2: "length buf2 = length buf0"
    using l1 l0 lip by (simp add: buf2_def)
  have sub1: "subarray buf2 0 (128 + length m) = ipad @ m"
    using lip by (simp add: subarray_def buf2_def)
  have b3: "buf3 = opad @ drop 128 buf2"
    unfolding buf3_def opad_def bk using klen l2 l0 by (intro pad_eq) simp_all
  have li: "length inner = 64" using h by (simp add: inner_def hash512_def)
  have l3: "length buf3 = length buf0" by (simp add: buf3_def l2)
  have s2: "set_at buf3 inner 128 = Inr (opad @ inner @ drop 192 buf3)"
    using l3 l0 lip li by (simp add: set_at_def b3)
  have sub2: "subarray (opad @ inner @ drop 192 buf3) 0 192 = opad @ inner"
    using lip li by (simp add: subarray_def)
  show ?thesis
    unfolding hmac_def
    by (simp add: BLOCK_SIZE_def HASH_SIZE_def Let_def k_def[symmetric] buf0_def[symmetric]
        buf1_def[symmetric] s1 sub1 inner_def[symmetric] buf3_def[symmetric] s2 li sub2
        hmac_standard_def ipad_def[symmetric] opad_def[symmetric])
qed

lemma length_hmac_standard: "hash512 h \<Longrightarrow> length (hmac_standard h m key) = 64"
  by (simp add: hmac_standard_def hash512_def)

section \<open>The expand loop of \<open>getHKDF\<close>\<close>

lemma expand_loop_blocks:
  "hash512 h \<Longrightarrow> 1 \<le> i \<Longrightarrow> i \<le> Suc n \<Longrightarrow> length t = Suc n
     \<Longrightarrow> t ! (i - 1) = T_block h prk (map to_uint8 info) (i - 1)
     \<Longrightarrow> expand_loop h info prk n i t okm
           = Inr (okm @ concat (map (T_block h prk (map to_uint8 info)) [i..<Suc n]))"
proof (induction h info prk n i t okm rule: expand_loop.induct)
  case (1 h info prk n i t okm)
  show ?case
  proof (cases "i \<le> n")
    case False
    with "1.prems" have "i = Suc n" by simp
    then show ?thesis by (simp add: expand_loop.simps[of _ _ _ n "Suc n"])
  next
    case True
    define ti where "ti = T_block h prk (map to_uint8 info) i"
    obtain j where j: "i = Suc j" using "1.prems"(2) by (cases i) auto
    have hm: "hmac h (Uint8Array (t ! (i - 1) @ map to_uint8 info @ [of_nat i])) (Uint8Array prk)
              = Inr ti"
      using "1.prems"(5) by (simp add: hmac_bytes[OF "1.prems"(1)] ti_def j)
    have step: "expand_loop h info prk n i t okm
                = expand_loop h info prk n (i + 1) (t[i := ti]) (okm @ ti)"
      using True hm by (subst expand_loop.simps) (simp add: Let_def)
    have "expand_loop h info prk n (i + 1) (t[i := ti]) (okm @ ti)
          = Inr ((okm @ ti) @ concat (map (T_block h prk (map to_uint8 info)) [i + 1..<Suc n]))"
    proof (rule "1.IH"[OF True refl hm])
      show "hash512 h" by (rule "1.prems"(1))
      show "1 \<le> i + 1" by simp
      show "i + 1 \<le> Suc n" using True by simp
      show "length (t[i := ti]) = Suc n" using "1.prems"(4) by simp
      show "t[i := ti] ! (i + 1 - 1) = T_block h prk (map to_uint8 info) (i + 1 - 1)"
        using True "1.prems"(4) by (simp add: ti_def)
    qed
    moreover have "[i..<Suc n] = i # [i + 1..<Suc n]"
      using True by (simp add: upt_conv_Cons)
    ultimately show ?thesis by (simp add: step ti_def)
  qed
qed

lemma neg_div64: "- ((- a) div 64) = (a + 63) div (64::int)"
proof -
  have m: "0 \<le> a mod 64" "a mod 64 < 64" by simp_all
  have "(a + 63) div 64 = (if a mod 64 = 0 then a div 64 else a div 64 + 1)"
  proof -
    have "(a + 63) div 64 = (64 * (a div 64) + (a mod 64 + 63)) div 64"
      by (simp add: algebra_simps)
    also have "\<dots> = a div 64 + (a mod 64 + 63) div 64"
      by (simp only: div_mult_self2 add.commute)
    also have "(a mod 64 + 63) div 64 = (if a mod 64 = 0 then 0 else 1)"
      using m by (auto simp: div_pos_pos_trivial intro!: int_div_pos_eq[where r="a mod 64 - 1"])
    finally show ?thesis by simp
  qed
  then show ?thesis by (simp add: zdiv_zminus1_eq_if)
qed

lemma ceil_div64: "nat \<lceil>(of_nat L :: rat) / of_nat 64\<rceil> = (L + 63) div 64"
proof -
  have "\<lceil>(of_nat L :: rat) / of_nat 64\<rceil> = - \<lfloor>(of_int (- int L) :: rat) / of_int 64\<rfloor>"
    by (simp add: ceiling_def)
  also have "\<dots> = - ((- int L) div 64)"
    by (simp only: floor_divide_of_int_eq)
  also have "\<dots> = (int L + 63) div 64" by (rule neg_div64)
  finally show ?thesis by (simp add: nat_div_distrib)
qed

lemma trunc_of_nat [simp]: "trunc (of_nat L) = int L"
  by (simp add: trunc_def)

lemma getHKDF_finite:
  assumes h: "hash512 h" and q: "0 \<le> q" "q \<le> 16320"
  shows "getHKDF h (Uint8Array ikm) info (Number (Finite q)) salt
         = Inr (take (nat \<lfloor>q\<rfloor>)
                 (concat (map (T_block h (hmac_standard h ikm (salt_bytes salt)) (map to_uint8 info))
                    [1..<Suc (nat \<lceil>q / 64\<rceil>)])))"
proof -
  define prk where "prk = hmac_standard h ikm (salt_bytes salt)"
  define n where "n = nat \<lceil>q / 64\<rceil>"
  have salt: "(case salt of Uint8Array s \<Rightarrow> salt | _ \<Rightarrow> Uint8Array (replicate 64 0))
              = Uint8Array (salt_bytes salt)"
    by (cases salt) (simp_all add: salt_bytes_def)
  have "expand_loop h info prk n 1 ((replicate (n + 1) [])[0 := []]) []
              = Inr ([] @ concat (map (T_block h prk (map to_uint8 info)) [1..<Suc n]))"
    by (rule expand_loop_blocks[OF h]) simp_all
  then have loop: "expand_loop h info prk n (Suc 0) ([] # replicate n []) []
              = Inr (concat (map (T_block h prk (map to_uint8 info)) [Suc 0..<Suc n]))"
    by simp
  show ?thesis
    using q
    by (simp add: getHKDF_def Let_def salt hmac_bytes[OF h] prk_def[symmetric] n_def[symmetric]
        loop trunc_def del: upt_Suc)
qed

lemma getHKDF_hkdf:
  assumes h: "hash512 h" and L: "L \<le> 16320"
  shows "getHKDF h (Uint8Array ikm) info (Number (Finite (of_nat L))) salt
         = Inr (hkdf h ikm (map to_uint8 info) L (salt_bytes salt))"
proof -
  have "getHKDF h (Uint8Array ikm) info (Number (Finite (of_nat L))) salt
        = Inr (take (nat \<lfloor>(of_nat L :: rat)\<rfloor>)
                 (concat (map (T_block h (hmac_standard h ikm (salt_bytes salt)) (map to_uint8 info))
                    [1..<Suc (nat \<lceil>(of_nat L :: rat) / 64\<rceil>)])))"
    using L by (intro getHKDF_finite[OF h]) simp_all
  moreover have "nat \<lceil>(of_nat L :: rat) / 64\<rceil> = (L + 63) div 64"
    using ceil_div64[of L] by simp
  ultimately show ?thesis by (simp add: hkdf_def hkdf_expand_def)
qed


lemma hash512_demo: "hash512 demo_hash"
  by (simp add: hash512_def demo_hash_def Let_def)

lemma length_blocks:
  "hash512 h \<Longrightarrow> length (concat (map (T_block h prk info) [1..<Suc n])) = 64 * n"
  by (induction n) (simp_all add: length_hmac_standard)

lemma length_hkdf: "hash512 h \<Longrightarrow> length (hkdf h ikm info L salt) = L"
proof -
  assume h: "hash512 h"
  have "L \<le> 64 * ((L + 63) div 64)" by presburger
  then show ?thesis
    using length_blocks[OF h, of "hmac_standard h ikm salt" info "(L + 63) div 64"]
    by (simp add: hkdf_def hkdf_expand_def)
qed

lemma demo_values:
  "hkdf demo_hash [1] [] 1 [2] = [199]"
  "hkdf_salt_as_message demo_hash [1] [] 1 [2] = [71]"
  by code_simp+

section \<open>Hexadecimal digits and the fingerprint\<close>

lemma hexVal_hexDigit: "d < 16 \<Longrightarrow> hexVal (hexDigit d) = Some d"
proof -
  assume "d < 16"
  then have "d \<in> {0, 1, 2, 3, 4, 5, 6, 7, 8, 9, 10, 11, 12, 13, 14, 15}"
    by (simp only: insert_iff empty_iff) arith
  then show ?thesis
    by (elim insertE emptyE) (simp_all add: hexDigit_def hexVal_def)
qed

lemma lower_hexDigit: "d < 16 \<Longrightarrow> is_lower_hex (hexDigit d)"
proof -
  assume "d < 16"
  then have "d \<in> {0, 1, 2, 3, 4, 5, 6, 7, 8, 9, 10, 11, 12, 13, 14, 15}"
    by (simp only: insert_iff empty_iff) arith
  then show ?thesis
    by (elim insertE emptyE) (simp_all add: hexDigit_def is_lower_hex_def)
qed

lemma hexDigit_0: "hexDigit 0 = CHR ''0''"
  by (simp add: hexDigit_def)

lemma toString16_small: "n < 16 \<Longrightarrow> toString16 n = [hexDigit n]"
  by (subst toString16.simps) simp

lemma toString16_byte:
  "16 \<le> n \<Longrightarrow> n < 256 \<Longrightarrow> toString16 n = [hexDigit (n div 16), hexDigit (n mod 16)]"
  by (subst toString16.simps) (simp add: toString16_small)

lemma unat_byte_less: "unat (b :: byte) < 256"
  using unsigned_less[of b, where ?'a = nat] by simp

lemma fingerprint_step_hex2: "fingerprint_step fp b = fp @ hex2 b"
proof (cases "unat b < 16")
  case True
  then show ?thesis
    by (simp add: fingerprint_step_def toString16_small hex2_def hexDigit_0 Let_def)
next
  case False
  moreover have "unat b < 256" by (rule unat_byte_less)
  ultimately show ?thesis
    by (simp add: fingerprint_step_def toString16_byte hex2_def Let_def)
qed

lemma foldl_fingerprint: "foldl fingerprint_step fp pk = fp @ lowercase_hex pk"
  by (induction pk arbitrary: fp) (simp_all add: lowercase_hex_def fingerprint_step_hex2)

lemma length_lowercase_hex: "length (lowercase_hex bs) = 2 * length bs"
  by (induction bs) (simp_all add: lowercase_hex_def hex2_def)

lemma byte_div_mod: "unat (b :: byte) div 16 < 16" "unat b mod 16 < 16"
  using unat_byte_less[of b] by simp_all

lemma lower_lowercase_hex: "list_all is_lower_hex (lowercase_hex bs)"
  by (induction bs) (simp_all add: lowercase_hex_def hex2_def lower_hexDigit byte_div_mod)

lemma hex_decode_lowercase_hex: "hex_decode (lowercase_hex bs) = Some bs"
proof (induction bs)
  case Nil
  then show ?case by (simp add: lowercase_hex_def)
next
  case (Cons b bs)
  have "(of_nat (16 * (unat b div 16) + unat b mod 16) :: byte) = b"
    by simp
  with Cons show ?case
    by (simp add: lowercase_hex_def hex2_def hexVal_hexDigit byte_div_mod)
qed

section \<open>Key derivation on the reference HKDF\<close>

lemma length_HKDF_SALT: "length HKDF_SALT = 64"
  by (simp add: HKDF_SALT_def)

lemma deriveKeys_bytes:
  assumes h: "hash512 h"
  shows "deriveKeys h fromSeed (Uint8Array seed) = Inr (deriveKeys_reference h fromSeed seed)"
proof -
  have a: "getHKDF h (Uint8Array seed) [Finite 0] (Number (Finite 32)) (Uint8Array HKDF_SALT)
           = Inr (hkdf h seed [0] 32 HKDF_SALT)"
    using getHKDF_hkdf[OF h, of 32 seed "[Finite 0]" "Uint8Array HKDF_SALT"]
    by (simp add: salt_bytes_def trunc_def)
  have b: "getHKDF h (Uint8Array seed) [Finite 1] (Number (Finite 32)) (Uint8Array HKDF_SALT)
           = Inr (hkdf h seed [1] 32 HKDF_SALT)"
    using getHKDF_hkdf[OF h, of 32 seed "[Finite 1]" "Uint8Array HKDF_SALT"]
    by (simp add: salt_bytes_def trunc_def)
  show ?thesis
    by (simp add: deriveKeys_def crypto_sign_SEEDBYTES_def secretbox_keyLength_def a b
        deriveKeys_reference_def Let_def foldl_fingerprint split: prod.split)
qed

lemma deriveKeys_other:
  "\<not> is_Uint8Array seed \<Longrightarrow> deriveKeys h fromSeed seed = Inl (Error ''Seed must be Uint8Array.'')"
  by (cases seed) (simp_all add: deriveKeys_def)

lemma keypair32_demo: "keypair32 demo_fromSeed"
  by (auto simp: keypair32_def demo_fromSeed_def min_def)

section \<open>The timestamp field of the nonce\<close>

lemma pad_loop_eq: "pad_loop s = replicate (12 - length s) CHR ''0'' @ s"
proof (induction s rule: pad_loop.induct)
  case (1 s)
  show ?case
  proof (cases "length s < 12")
    case True
    then have "pad_loop s = pad_loop (CHR ''0'' # s)" by (subst pad_loop.simps) simp
    also have "\<dots> = replicate (12 - length (CHR ''0'' # s)) CHR ''0'' @ CHR ''0'' # s"
      using True by (rule "1.IH")
    also have "\<dots> = replicate (12 - length s) CHR ''0'' @ s"
    proof -
      have "12 - length s = Suc (12 - length (CHR ''0'' # s))" using True by simp
      then show ?thesis by (simp only: replicate_Suc replicate_app_Cons_same append_Cons)
    qed
    finally show ?thesis .
  next
    case False
    then show ?thesis by (subst pad_loop.simps) simp
  qed
qed

lemma hex_fixed_0: "hex_fixed k 0 = replicate k CHR ''0''"
  by (induction k) (simp_all add: hexDigit_0 replicate_append_same)

lemma pad_toString16:
  "0 < k \<Longrightarrow> n < 16 ^ k
     \<Longrightarrow> replicate (k - length (toString16 n)) CHR ''0'' @ toString16 n = hex_fixed k n"
proof (induction k arbitrary: n)
  case 0
  then show ?case by simp
next
  case (Suc k)
  show ?case
  proof (cases "n < 16")
    case True
    then show ?thesis by (simp add: toString16_small hex_fixed_0)
  next
    case False
    then have ts: "toString16 n = toString16 (n div 16) @ [hexDigit (n mod 16)]"
      by (subst toString16.simps) simp
    have k: "0 < k" using False Suc.prems(2) by (cases k) auto
    have "n div 16 < 16 ^ k" using Suc.prems(2) by (simp add: less_mult_imp_div_less)
    from Suc.IH[OF k this] show ?thesis by (simp add: ts)
  qed
qed

lemma hex_fixed_two: "hex_fixed (Suc (Suc k)) n = hex_fixed k (n div 256) @ byte_hex n"
proof -
  have "n div 16 div 16 = n div 256" by (simp add: div_mult2_eq[symmetric])
  then show ?thesis by (simp add: byte_hex_def)
qed

lemma hex_fixed_12:
  "hex_fixed 12 n = byte_hex (n div 1099511627776) @ byte_hex (n div 4294967296)
     @ byte_hex (n div 16777216) @ byte_hex (n div 65536) @ byte_hex (n div 256) @ byte_hex n"
proof -
  have "hex_fixed 12 n = hex_fixed (Suc (Suc (Suc (Suc (Suc (Suc (Suc (Suc (Suc (Suc (Suc (Suc 0)))))))))))) n"
  proof -
    have "(12::nat) = Suc (Suc (Suc (Suc (Suc (Suc (Suc (Suc (Suc (Suc (Suc (Suc 0)))))))))))"
      by simp
    then show ?thesis by (rule arg_cong[where f = "\<lambda>k. hex_fixed k n"])
  qed
  also have "\<dots> = byte_hex (n div 256 div 256 div 256 div 256 div 256)
      @ byte_hex (n div 256 div 256 div 256 div 256) @ byte_hex (n div 256 div 256 div 256)
      @ byte_hex (n div 256 div 256) @ byte_hex (n div 256) @ byte_hex n"
    by (simp only: hex_fixed_two hex_fixed.simps(1) append_Nil append_assoc)
  finally show ?thesis by (simp add: div_mult2_eq[symmetric])
qed

lemma to_uint8_of_nat: "to_uint8 (Finite (of_nat m)) = of_nat m"
  by simp

lemma Number_0x_byte:
  "to_uint8 (Number_0x (Some (hexDigit ((m div 16) mod 16))) (Some (hexDigit (m mod 16))))
     = (of_nat m :: byte)"
proof -
  have "m mod (16 * 16) = 16 * ((m div 16) mod 16) + m mod 16"
    by (rule mod_mult2_eq)
  then have "16 * ((m div 16) mod 16) + m mod 16 = m mod 256"
    by simp
  moreover have "(of_nat (m mod 256) :: byte) = of_nat m"
    by (simp add: word_of_nat_eq_iff take_bit_eq_mod)
  ultimately show ?thesis
    by (simp add: Number_0x_def hexVal_hexDigit del: of_nat_add of_nat_mult)
qed

lemma length_time_loop [simp]: "length (time_loop h i nc) = length nc"
proof (induction h i nc rule: time_loop.induct)
  case (1 h i nc)
  show ?case
  proof (cases "i < 6")
    case True
    then show ?thesis using "1.IH" by (subst time_loop.simps) simp
  next
    case False
    then show ?thesis by (subst time_loop.simps) simp
  qed
qed

lemma time_loop_fold:
  "time_loop h i nc
     = fold (\<lambda>j b. b[5 + j := to_uint8 (Number_0x (char_at h (2 * j)) (char_at h (2 * j + 1)))])
         [i..<6] nc"
proof (induction h i nc rule: time_loop.induct)
  case (1 h i nc)
  show ?case
  proof (cases "i < 6")
    case True
    then have "[i..<6] = i # [i + 1..<6]" by (simp add: upt_conv_Cons)
    with True "1.IH" show ?thesis by (subst time_loop.simps) simp
  next
    case False
    then show ?thesis by (subst time_loop.simps) simp
  qed
qed

lemma time_loop_unfold:
  "time_loop h 0 nc =
     nc[5 := to_uint8 (Number_0x (char_at h 0) (char_at h 1)),
        6 := to_uint8 (Number_0x (char_at h 2) (char_at h 3)),
        7 := to_uint8 (Number_0x (char_at h 4) (char_at h 5)),
        8 := to_uint8 (Number_0x (char_at h 6) (char_at h 7)),
        9 := to_uint8 (Number_0x (char_at h 8) (char_at h 9)),
        10 := to_uint8 (Number_0x (char_at h 10) (char_at h 11))]"
proof -
  have "[0..<6] = [0, 1, 2, 3, 4, 5 :: nat]" by (simp add: upt_rec)
  then show ?thesis by (simp add: time_loop_fold)
qed

lemma replicate_split: "replicate 24 z = z # replicate 4 z @ replicate 19 z"
proof -
  have "replicate 24 z = replicate (Suc 0 + 4 + 19) z" by simp
  also have "\<dots> = z # replicate 4 z @ replicate 19 z"
    by (simp only: replicate_add replicate_Suc replicate_0 append_Cons append_Nil append_assoc)
  finally show ?thesis .
qed

lemma replicate_19: "replicate 19 z = [z, z, z, z, z, z] @ replicate 13 z"
proof -
  have "replicate 19 z = replicate (Suc (Suc (Suc (Suc (Suc (Suc 0))))) + 13) z" by simp
  also have "\<dots> = [z, z, z, z, z, z] @ replicate 13 z"
    by (simp only: replicate_add replicate_Suc replicate_0)
  finally show ?thesis .
qed

lemma update_time_field:
  assumes "length pre = 5"
  shows "(pre @ replicate 19 z)[5 := a, 6 := b, 7 := c, 8 := d, 9 := e, 10 := f]
         = pre @ [a, b, c, d, e, f] @ replicate 13 z"
  using assms by (simp add: replicate_19 list_update_append eval_nat_numeral)

lemma nonce_prefix:
  assumes "length r = 4"
  shows "set_at ((replicate 24 0)[0 := x]) r 1 = Inr ((x # r) @ replicate 19 0)"
  using assms by (simp add: set_at_def replicate_split)

lemma be48_list:
  "be48 t = [word_of_int (t div 1099511627776), word_of_int (t div 4294967296),
             word_of_int (t div 16777216), word_of_int (t div 65536),
             word_of_int (t div 256), word_of_int t]"
proof -
  have "[0..<6] = [0, 1, 2, 3, 4, 5 :: nat]" by (simp add: upt_rec)
  then show ?thesis by (simp add: be48_def)
qed

lemma uint_byte_of_int: "uint (word_of_int x :: byte) = x mod 256"
  by (simp add: uint_word_of_int take_bit_eq_mod)

lemma be_value_be48:
  assumes "0 \<le> t" "t < 2 ^ 48"
  shows "be_value (be48 t) = t"
proof -
  define t1 where "t1 = t div 256"
  define t2 where "t2 = t1 div 256"
  define t3 where "t3 = t2 div 256"
  define t4 where "t4 = t3 div 256"
  define t5 where "t5 = t4 div 256"
  have d: "t div 256 = t1" "t div 65536 = t2" "t div 16777216 = t3" "t div 4294967296 = t4"
    "t div 1099511627776 = t5"
    by (simp_all add: t1_def t2_def t3_def t4_def t5_def zdiv_zmult2_eq[symmetric])
  have "t5 < 256" "0 \<le> t5" using assms d(5) by simp_all
  then have m5: "t5 mod 256 = t5" by simp
  have s: "256 * (x div 256) + x mod 256 = x" for x :: int by simp
  have "be_value (be48 t) =
      256 * (256 * (256 * (256 * (256 * (t5 mod 256) + t4 mod 256) + t3 mod 256) + t2 mod 256)
        + t1 mod 256) + t mod 256"
    by (simp add: be48_list be_value_def uint_byte_of_int d)
  also have "\<dots> = t"
    unfolding m5 using s[of t4] s[of t3] s[of t2] s[of t1] s[of t]
    by (simp only: t5_def t4_def t3_def t2_def t1_def)
  finally show ?thesis .
qed

lemma word_of_nat_div: "(of_nat (n div k) :: byte) = word_of_int (int n div int k)"
  by (simp add: zdiv_int[symmetric])

lemma hexTime_eq:
  assumes "0 \<le> time" "time < 2 ^ 48"
  shows "pad_loop (int_toString16 time) = hex_fixed 12 (nat time)"
proof -
  have "nat time < 16 ^ 12" using assms by (simp add: nat_less_iff)
  then show ?thesis
    using assms(1) pad_toString16[of 12 "nat time"] by (simp add: pad_loop_eq int_toString16_def)
qed

lemma time_field:
  "time_loop (hex_fixed 12 n) 0 (pre @ replicate 19 0)
     = (pre @ replicate 19 0)
         [5 := of_nat (n div 1099511627776), 6 := of_nat (n div 4294967296),
          7 := of_nat (n div 16777216), 8 := of_nat (n div 65536),
          9 := of_nat (n div 256), 10 := of_nat n]"
proof -
  define a5 where "a5 = n div 1099511627776"
  define a4 where "a4 = n div 4294967296"
  define a3 where "a3 = n div 16777216"
  define a2 where "a2 = n div 65536"
  define a1 where "a1 = n div 256"
  have h: "hex_fixed 12 n = byte_hex a5 @ byte_hex a4 @ byte_hex a3 @ byte_hex a2 @ byte_hex a1 @ byte_hex n"
    by (simp add: hex_fixed_12 a5_def a4_def a3_def a2_def a1_def)
  show ?thesis
    unfolding time_loop_unfold h a5_def[symmetric] a4_def[symmetric] a3_def[symmetric]
      a2_def[symmetric] a1_def[symmetric]
    by (simp add: byte_hex_def char_at_def Number_0x_byte del: to_uint8.simps)
qed

lemma getNonce_layout:
  assumes rnd: "random_source rnd" and v: "valid_deviceId (Number d)"
    and t: "0 \<le> time" "time < 2 ^ 48"
  shows "getNonce rnd time (Number d) = Inr (to_uint8 d # rnd 4 @ be48 time @ replicate 13 0)"
proof -
  define n where "n = nat time"
  have tn: "time = int n" using t(1) by (simp add: n_def)
  have r4: "length (rnd 4) = 4" using rnd by (simp add: random_source_def)
  have pre: "length (to_uint8 d # rnd 4) = 5" using r4 by simp
  have guard: "\<not> (num_lt d 0 \<or> num_gt d 255)" using v by (simp add: valid_deviceId_def)
  have "getNonce rnd time (Number d)
        = Inr (time_loop (hex_fixed 12 n) 0 ((to_uint8 d # rnd 4) @ replicate 19 0))"
    using guard t hexTime_eq[OF t] nonce_prefix[OF r4, of "to_uint8 d"]
    by (simp add: getNonce_def secretbox_nonceLength_def Let_def n_def)
  also have "time_loop (hex_fixed 12 n) 0 ((to_uint8 d # rnd 4) @ replicate 19 0)
        = (to_uint8 d # rnd 4) @ [of_nat (n div 1099511627776), of_nat (n div 4294967296),
             of_nat (n div 16777216), of_nat (n div 65536), of_nat (n div 256), of_nat n]
           @ replicate 13 0"
    unfolding time_field by (rule update_time_field[OF pre])
  also have "[of_nat (n div 1099511627776), of_nat (n div 4294967296),
             of_nat (n div 16777216), of_nat (n div 65536), of_nat (n div 256), of_nat n :: byte]
        = be48 time"
    using word_of_nat_div[of n 1099511627776] word_of_nat_div[of n 4294967296]
      word_of_nat_div[of n 16777216] word_of_nat_div[of n 65536] word_of_nat_div[of n 256]
    by (simp add: be48_list tn)
  finally show ?thesis by simp
qed

lemma getNonce_returns:
  assumes rnd: "random_source rnd" and v: "valid_deviceId deviceId" and t: "time \<le> 2 ^ 48"
  shows "\<exists>n. getNonce rnd time deviceId = Inr n \<and> length n = 24"
proof -
  obtain d where d: "deviceId = Number d" and guard: "\<not> (num_lt d 0 \<or> num_gt d 255)"
    using v by (cases deviceId) (simp_all add: valid_deviceId_def)
  have r4: "length (rnd 4) = 4" using rnd by (simp add: random_source_def)
  show ?thesis
    using guard t nonce_prefix[OF r4, of "to_uint8 d"]
    by (simp add: d getNonce_def secretbox_nonceLength_def Let_def r4)
qed

lemma getNonce_invalid:
  "\<not> valid_deviceId deviceId \<Longrightarrow> getNonce rnd time deviceId = Inl (Error ''Invalid device ID'')"
  by (cases deviceId) (auto simp: getNonce_def valid_deviceId_def)

lemma getNonce_late:
  "valid_deviceId deviceId \<Longrightarrow> 2 ^ 48 < time
     \<Longrightarrow> getNonce rnd time deviceId = Inl (Error ''Timestamp is too far in the future.'')"
  by (cases deviceId) (auto simp: getNonce_def valid_deviceId_def Let_def)

lemma valid_deviceId_int:
  "valid_deviceId (Number (Finite (of_int k))) \<longleftrightarrow> 0 \<le> k \<and> k \<le> 255"
  by (auto simp: valid_deviceId_def)

lemma random_source_demo: "random_source demo_randomBytes"
  by (simp add: random_source_def demo_randomBytes_def)

lemma opens_demo: "opens demo_secretbox demo_open"
  by (simp add: opens_def demo_secretbox_def demo_open_def demo_tag_def)

text \<open>
  At a clock of exactly \<open>2 ^ 48\<close> the guard \<open>time > Math.pow(256, 6)\<close> still passes. The
  hexadecimal string then has 13 digits, of which the loop reads the first 12, so the
  field holds \<open>10 00 00 00 00 00\<close>.
\<close>

lemma toString16_power: "toString16 (16 ^ k) = CHR ''1'' # replicate k CHR ''0''"
proof (induction k)
  case 0
  then show ?case by (simp add: toString16_small hexDigit_def)
next
  case (Suc k)
  have "toString16 (16 ^ Suc k) = toString16 (16 ^ Suc k div 16) @ [hexDigit (16 ^ Suc k mod 16)]"
    by (subst toString16.simps) simp
  then show ?case using Suc by (simp add: hexDigit_0 replicate_append_same)
qed

lemma hexTime_at_limit: "pad_loop (int_toString16 281474976710656) = ''1000000000000''"
proof -
  have "nat 281474976710656 = (16 :: nat) ^ 12" by simp
  then have "int_toString16 281474976710656 = CHR ''1'' # replicate 12 CHR ''0''"
    by (simp only: int_toString16_def toString16_power) simp
  also have "\<dots> = ''1000000000000''" by (simp add: eval_nat_numeral)
  finally show ?thesis by (subst pad_loop.simps) simp
qed

lemma getNonce_at_limit:
  "getNonce demo_randomBytes (2 ^ 48) (Number (Finite 7))
     = Inr [7, 1, 2, 3, 4, 16, 0, 0, 0, 0, 0, 0, 0, 0, 0, 0, 0, 0, 0, 0, 0, 0, 0, 0]"
proof -
  have r: "demo_randomBytes 4 = [1, 2, 3, 4]"
    by (simp add: demo_randomBytes_def upt_rec)
  have p: "set_at ((replicate 24 0)[0 := 7]) [1, 2, 3, 4] 1 = Inr (([7, 1, 2, 3, 4]) @ replicate 19 0)"
    using nonce_prefix[of "[1, 2, 3, 4]" 7] by simp
  have v: "to_uint8 (Number_0x (char_at ''1000000000000'' 0) (char_at ''1000000000000'' 1)) = 16"
    "to_uint8 (Number_0x (char_at ''1000000000000'' 2) (char_at ''1000000000000'' 3)) = 0"
    "to_uint8 (Number_0x (char_at ''1000000000000'' 4) (char_at ''1000000000000'' 5)) = 0"
    "to_uint8 (Number_0x (char_at ''1000000000000'' 6) (char_at ''1000000000000'' 7)) = 0"
    "to_uint8 (Number_0x (char_at ''1000000000000'' 8) (char_at ''1000000000000'' 9)) = 0"
    "to_uint8 (Number_0x (char_at ''1000000000000'' 10) (char_at ''1000000000000'' 11)) = 0"
    by (simp_all add: char_at_def Number_0x_def hexVal_def trunc_def)
  have t: "time_loop ''1000000000000'' 0 ([7, 1, 2, 3, 4] @ replicate 19 0)
           = [7, 1, 2, 3, 4] @ [16, 0, 0, 0, 0, 0] @ replicate 13 0"
    unfolding time_loop_unfold v by (rule update_time_field) simp
  have z: "replicate 13 (0 :: byte) = [0, 0, 0, 0, 0, 0, 0, 0, 0, 0, 0, 0, 0]"
    by (simp add: eval_nat_numeral)
  show ?thesis
    using p t
    by (simp add: getNonce_def secretbox_nonceLength_def Let_def r hexTime_at_limit z trunc_def)
qed

section \<open>HMAC and HKDF: the claims\<close>

text \<open>
  C7. On byte arrays, and with a hash of 64-byte digests, \<open>hmac(message, key)\<close> does not
  throw and returns the standard HMAC with a 128-byte block: a key longer than 128 bytes
  is replaced by its hash, the result is
  \<open>Hash((key XOR 0x5c-pad) ++ Hash((key XOR 0x36-pad) ++ message))\<close>, and it has 64 bytes.
\<close>

theorem hmac_is_standard:
  assumes "hash512 h"
  shows "hmac h (Uint8Array message) (Uint8Array key) = Inr (hmac_standard h message key)
         \<and> length (hmac_standard h message key) = 64"
  using assms by (simp add: hmac_bytes length_hmac_standard)

theorem hmac_is_standard_witness:
  "hash512 demo_hash
   \<and> hmac demo_hash (Uint8Array [1, 2, 3]) (Uint8Array (replicate 200 7))
       = Inr (hmac_standard demo_hash [1, 2, 3] (replicate 200 7))
   \<and> length (hmac_standard demo_hash [1, 2, 3] (replicate 200 7)) = 64"
  using hmac_is_standard[OF hash512_demo, of "[1, 2, 3]" "replicate 200 7"] hash512_demo
  by simp

text \<open>
  C8, as the code has it. For an integer \<open>extractLen\<close> from 0 to \<open>255 * 64\<close>, \<open>getHKDF\<close>
  returns the RFC's extract-then-expand: \<open>PRK\<close> is the HMAC of the message \<open>ikm\<close> under
  the key \<open>salt\<close> (64 zero bytes when no salt is supplied), the blocks are
  \<open>T[i] = HMAC(T[i-1] ++ info ++ [i], PRK)\<close> with \<open>PRK\<close> as the key, and the output is
  \<open>T[1] ++ ... ++ T[ceil(extractLen / 64)]\<close> cut to \<open>extractLen\<close> bytes.
\<close>

theorem getHKDF_extract_expand:
  assumes "hash512 h" and "L \<le> 255 * 64"
  shows "getHKDF h (Uint8Array ikm) info (Number (Finite (of_nat L))) salt
           = Inr (hkdf h ikm (map to_uint8 info) L (salt_bytes salt))
         \<and> length (hkdf h ikm (map to_uint8 info) L (salt_bytes salt)) = L
         \<and> salt_bytes (Uint8Array s) = s
         \<and> salt_bytes Undefined = replicate 64 0"
  using assms by (simp add: getHKDF_hkdf length_hkdf salt_bytes_def)

theorem getHKDF_extract_expand_witness:
  "hash512 demo_hash \<and> (70 :: nat) \<le> 255 * 64
   \<and> getHKDF demo_hash (Uint8Array [1]) [Finite 3] (Number (Finite 70)) Undefined
       = Inr (hkdf demo_hash [1] [3] 70 (replicate 64 0))
   \<and> length (hkdf demo_hash [1] [3] 70 (replicate 64 0)) = 70"
  using getHKDF_extract_expand[OF hash512_demo, of 70 "[1]" "[Finite 3]" Undefined "[]"]
    hash512_demo
  by (simp add: trunc_def salt_bytes_def)

text \<open>
  C8, as it is written: with both HMAC calls read in the order of \<open>hmac(message, key)\<close>,
  \<open>PRK = HMAC(salt, ikm)\<close> makes the salt the message and \<open>ikm\<close> the key. The code does
  the opposite, and the two differ: on the checksum stand-in, with \<open>ikm = [1]\<close>,
  \<open>salt = [2]\<close>, no info and one byte of output, the code returns \<open>[199]\<close> and the
  other reading \<open>[71]\<close>.
\<close>

theorem getHKDF_salt_as_message_counterexample:
  "getHKDF demo_hash (Uint8Array [1]) [] (Number (Finite 1)) (Uint8Array [2])
     \<noteq> Inr (hkdf_salt_as_message demo_hash [1] [] 1 [2])"
  using getHKDF_hkdf[OF hash512_demo, of 1 "[1]" "[]" "Uint8Array [2]"] demo_values
  by (simp add: salt_bytes_def)

text \<open>
  C9. For a finite \<open>extractLen\<close> (every integer is one) and a byte array \<open>ikm\<close>,
  \<open>getHKDF\<close> throws exactly when \<open>extractLen\<close> is negative or exceeds \<open>255 * 64\<close>, and
  then it throws \<open>Error('Invalid extract length.')\<close>; with \<open>extractLen = 0\<close> it returns
  the empty array.
\<close>

theorem getHKDF_range:
  assumes "hash512 h"
  shows "(isl (getHKDF h (Uint8Array ikm) info (Number (Finite q)) salt) \<longleftrightarrow> q < 0 \<or> 255 * 64 < q)
       \<and> (q < 0 \<or> 255 * 64 < q \<longrightarrow>
            getHKDF h (Uint8Array ikm) info (Number (Finite q)) salt
              = Inl (Error ''Invalid extract length.''))
       \<and> getHKDF h (Uint8Array ikm) info (Number (Finite 0)) salt = Inr []"
proof -
  have bad: "getHKDF h (Uint8Array ikm) info (Number (Finite q)) salt
              = Inl (Error ''Invalid extract length.'')" if "q < 0 \<or> 255 * 64 < q"
    using that by (auto simp: getHKDF_def Let_def)
  have good: "\<not> isl (getHKDF h (Uint8Array ikm) info (Number (Finite q)) salt)"
    if "\<not> (q < 0 \<or> 255 * 64 < q)"
    using that getHKDF_finite[OF assms, of q ikm info salt] by simp
  have zero: "getHKDF h (Uint8Array ikm) info (Number (Finite 0)) salt = Inr []"
    using getHKDF_finite[OF assms, of 0 ikm info salt] by simp
  show ?thesis using bad good zero by auto
qed

theorem getHKDF_range_witness:
  "hash512 demo_hash
   \<and> isl (getHKDF demo_hash (Uint8Array [1]) [] (Number (Finite 16321)) Undefined)
   \<and> getHKDF demo_hash (Uint8Array [1]) [] (Number (Finite 16321)) Undefined
       = Inl (Error ''Invalid extract length.'')
   \<and> getHKDF demo_hash (Uint8Array [1]) [] (Number (Finite 0)) Undefined = Inr []"
  using getHKDF_range[OF hash512_demo, of "[1]" "[]" 16321 Undefined] hash512_demo
  by simp

section \<open>Key derivation: the claims\<close>

text \<open>
  C1. With a hash of 64-byte digests, \<open>deriveKeys\<close> on a byte-array seed (of 32 bytes
  or of any other length) returns the bundle of the reference definition: the key pair
  the library derives from \<open>hkdf(seed, info = [0], extractLen = 32, salt = HKDF_SALT)\<close>,
  the lowercase hexadecimal of the public key as fingerprint, and
  \<open>hkdf(seed, info = [1], extractLen = 32, salt = HKDF_SALT)\<close> as the secretbox key, with
  the same fixed salt of 64 bytes. The bundle is a function of the seed bytes alone:
  \<open>deriveKeys\<close> reads neither the clock nor the random source.
\<close>

theorem deriveKeys_is_reference:
  assumes "hash512 h"
  shows "deriveKeys h fromSeed (Uint8Array seed)
           = Inr \<lparr>publicKey = fst (fromSeed (hkdf h seed [0] 32 HKDF_SALT)),
                  secretKey = snd (fromSeed (hkdf h seed [0] 32 HKDF_SALT)),
                  fingerprint = lowercase_hex (fst (fromSeed (hkdf h seed [0] 32 HKDF_SALT))),
                  secretboxKey = hkdf h seed [1] 32 HKDF_SALT\<rparr>
         \<and> length HKDF_SALT = 64"
  using assms by (simp add: deriveKeys_bytes deriveKeys_reference_def Let_def length_HKDF_SALT)

theorem deriveKeys_is_reference_witness:
  "hash512 demo_hash
   \<and> deriveKeys demo_hash demo_fromSeed (Uint8Array (replicate 32 0))
       = Inr \<lparr>publicKey = fst (demo_fromSeed (hkdf demo_hash (replicate 32 0) [0] 32 HKDF_SALT)),
              secretKey = snd (demo_fromSeed (hkdf demo_hash (replicate 32 0) [0] 32 HKDF_SALT)),
              fingerprint =
                lowercase_hex (fst (demo_fromSeed (hkdf demo_hash (replicate 32 0) [0] 32 HKDF_SALT))),
              secretboxKey = hkdf demo_hash (replicate 32 0) [1] 32 HKDF_SALT\<rparr>"
  using deriveKeys_is_reference[OF hash512_demo, of demo_fromSeed "replicate 32 0"] hash512_demo
  by simp

text \<open>
  C3, as the code has it. \<open>deriveKeys\<close> throws exactly when the seed is not a
  \<open>Uint8Array\<close>, and then it throws \<open>Error('Seed must be Uint8Array.')\<close>; the length of a
  byte-array seed is not checked.
\<close>

theorem deriveKeys_type_check:
  assumes "hash512 h"
  shows "(isl (deriveKeys h fromSeed seed) \<longleftrightarrow> \<not> is_Uint8Array seed)
         \<and> (\<not> is_Uint8Array seed \<longrightarrow>
               deriveKeys h fromSeed seed = Inl (Error ''Seed must be Uint8Array.''))"
proof (cases "is_Uint8Array seed")
  case True
  then obtain s where "seed = Uint8Array s" by (cases seed) auto
  then show ?thesis using True assms by (simp add: deriveKeys_bytes)
next
  case False
  then show ?thesis by (simp add: deriveKeys_other)
qed

theorem deriveKeys_type_check_witness:
  "hash512 demo_hash
   \<and> \<not> isl (deriveKeys demo_hash demo_fromSeed (Uint8Array (replicate 31 5)))
   \<and> isl (deriveKeys demo_hash demo_fromSeed Undefined)
   \<and> deriveKeys demo_hash demo_fromSeed Undefined = Inl (Error ''Seed must be Uint8Array.'')"
  using deriveKeys_type_check[OF hash512_demo, of demo_fromSeed "Uint8Array (replicate 31 5)"]
    deriveKeys_type_check[OF hash512_demo, of demo_fromSeed Undefined] hash512_demo
  by simp

text \<open>
  C3, as it is written, asks for an error on every seed that is not 32 bytes long. A seed
  of three bytes is accepted and yields a bundle.
\<close>

theorem deriveKeys_short_seed_counterexample:
  "length [1, 2, 3 :: byte] \<noteq> 32
   \<and> \<not> isl (deriveKeys demo_hash demo_fromSeed (Uint8Array [1, 2, 3]))
   \<and> deriveKeys demo_hash demo_fromSeed (Uint8Array [1, 2, 3])
       = Inr (deriveKeys_reference demo_hash demo_fromSeed [1, 2, 3])"
  by (simp add: deriveKeys_bytes[OF hash512_demo])

text \<open>
  C10. For a 32-byte seed, a hash of 64-byte digests and a library key pair whose public
  key has 32 bytes, the fingerprint of \<open>deriveKeys(seed)\<close> is each byte of the public key
  as two lowercase hexadecimal digits, zero-padded: 64 characters, all in \<open>0-9a-f\<close>, and
  decoding them gives the public key back.
\<close>

theorem fingerprint_hex:
  assumes "hash512 h" and "keypair32 fromSeed" and "length seed = 32"
  shows "\<exists>ks. deriveKeys h fromSeed (Uint8Array seed) = Inr ks
           \<and> length (publicKey ks) = 32
           \<and> fingerprint ks = concat (map hex2 (publicKey ks))
           \<and> length (fingerprint ks) = 64
           \<and> list_all is_lower_hex (fingerprint ks)
           \<and> hex_decode (fingerprint ks) = Some (publicKey ks)"
proof -
  define ks where "ks = deriveKeys_reference h fromSeed seed"
  have pk: "length (publicKey ks) = 32"
    using assms(2) by (simp add: ks_def deriveKeys_reference_def Let_def keypair32_def)
  have fp: "fingerprint ks = lowercase_hex (publicKey ks)"
    by (simp add: ks_def deriveKeys_reference_def Let_def)
  have "deriveKeys h fromSeed (Uint8Array seed) = Inr ks"
    using assms(1) by (simp add: ks_def deriveKeys_bytes)
  moreover have "fingerprint ks = concat (map hex2 (publicKey ks))"
    by (simp add: fp lowercase_hex_def)
  moreover have "length (fingerprint ks) = 64"
    by (simp add: fp length_lowercase_hex pk)
  moreover have "list_all is_lower_hex (fingerprint ks)"
    by (simp add: fp lower_lowercase_hex)
  moreover have "hex_decode (fingerprint ks) = Some (publicKey ks)"
    by (simp add: fp hex_decode_lowercase_hex)
  ultimately show ?thesis using pk by blast
qed

theorem fingerprint_hex_witness:
  "hash512 demo_hash \<and> keypair32 demo_fromSeed \<and> length (replicate 32 (0 :: byte)) = 32
   \<and> (\<exists>ks. deriveKeys demo_hash demo_fromSeed (Uint8Array (replicate 32 0)) = Inr ks
           \<and> length (publicKey ks) = 32
           \<and> fingerprint ks = concat (map hex2 (publicKey ks))
           \<and> length (fingerprint ks) = 64
           \<and> list_all is_lower_hex (fingerprint ks)
           \<and> hex_decode (fingerprint ks) = Some (publicKey ks))"
  using fingerprint_hex[OF hash512_demo keypair32_demo, of "replicate 32 0"]
    hash512_demo keypair32_demo
  by simp

section \<open>Nonce and encryption: the claims\<close>

text \<open>
  C2. For an integer device id in \<open>[0, 255]\<close> and a clock in \<open>[0, 2 ^ 48)\<close>, \<open>getNonce\<close>
  returns 24 bytes: byte 0 is the device id, bytes 1 to 4 are the four bytes the random
  source gave, bytes 5 to 10 are the clock as a 48-bit big-endian integer (six bytes that
  read back, highest first, as the clock), and bytes 11 to 23 are zero.
\<close>

theorem getNonce_byte_layout:
  assumes "random_source rnd" and "d \<le> 255" and "0 \<le> time" and "time < 2 ^ 48"
  shows "getNonce rnd time (Number (Finite (of_nat d)))
           = Inr (of_nat d # rnd 4 @ be48 time @ replicate 13 0)
         \<and> length (rnd 4) = 4 \<and> length (be48 time) = 6 \<and> be_value (be48 time) = time
         \<and> length (of_nat d # rnd 4 @ be48 time @ replicate 13 0) = 24"
proof -
  have v: "valid_deviceId (Number (Finite (of_nat d)))"
    using assms(2) by (simp add: valid_deviceId_def)
  have r4: "length (rnd 4) = 4" using assms(1) by (simp add: random_source_def)
  have l6: "length (be48 time) = 6" by (simp add: be48_list)
  show ?thesis
    using getNonce_layout[OF assms(1) v assms(3,4)] r4 l6 be_value_be48[OF assms(3,4)] by simp
qed

theorem getNonce_byte_layout_witness:
  "random_source demo_randomBytes \<and> (7 :: nat) \<le> 255 \<and> (0 :: int) \<le> 1700000000000
   \<and> (1700000000000 :: int) < 2 ^ 48
   \<and> getNonce demo_randomBytes 1700000000000 (Number (Finite 7))
       = Inr [7, 1, 2, 3, 4, 1, 139, 207, 229, 104, 0, 0, 0, 0, 0, 0, 0, 0, 0, 0, 0, 0, 0, 0]"
proof -
  have r: "demo_randomBytes 4 = [1, 2, 3, 4]"
    by (simp add: demo_randomBytes_def upt_rec)
  have z: "replicate 13 (0 :: byte) = [0, 0, 0, 0, 0, 0, 0, 0, 0, 0, 0, 0, 0]"
    by (simp add: eval_nat_numeral)
  show ?thesis
    using getNonce_byte_layout[OF random_source_demo, of 7 1700000000000] random_source_demo
    by (simp add: r z be48_list)
qed

text \<open>
  C4, as it is written, asks for an error on every device id that is not an integer in
  \<open>[0, 255]\<close>. The number \<open>1.5\<close> is not an integer, passes the guard, and is stored as the
  byte 1.
\<close>

theorem getNonce_fraction_counterexample:
  "getNonce demo_randomBytes 0 (Number (Finite (3 / 2)))
     = Inr [1, 1, 2, 3, 4, 0, 0, 0, 0, 0, 0, 0, 0, 0, 0, 0, 0, 0, 0, 0, 0, 0, 0, 0]
   \<and> (3 / 2 :: rat) \<notin> \<int>"
proof -
  have r: "demo_randomBytes 4 = [1, 2, 3, 4]"
    by (simp add: demo_randomBytes_def upt_rec)
  have z: "replicate 13 (0 :: byte) = [0, 0, 0, 0, 0, 0, 0, 0, 0, 0, 0, 0, 0]"
    by (simp add: eval_nat_numeral)
  have v: "valid_deviceId (Number (Finite (3 / 2)))" by (simp add: valid_deviceId_def)
  have f: "\<lfloor>3 / 2 :: rat\<rfloor> = 1" by (rule floor_unique) simp_all
  have "getNonce demo_randomBytes 0 (Number (Finite (3 / 2)))
     = Inr [1, 1, 2, 3, 4, 0, 0, 0, 0, 0, 0, 0, 0, 0, 0, 0, 0, 0, 0, 0, 0, 0, 0, 0]"
    using getNonce_layout[OF random_source_demo v, of 0]
    by (simp add: r z be48_list trunc_def f)
  moreover have "(3 / 2 :: rat) \<notin> \<int>"
  proof
    assume "(3 / 2 :: rat) \<in> \<int>"
    then obtain k :: int where "(3 / 2 :: rat) = of_int k" by (auto elim: Ints_cases)
    then have "(of_int 3 :: rat) = of_int (2 * k)" by simp
    then have "3 = 2 * k" by (simp only: of_int_eq_iff)
    then show False by presburger
  qed
  ultimately show ?thesis by simp
qed

text \<open>
  C4, as the code has it, for every clock other than exactly \<open>2 ^ 48\<close>. \<open>getNonce\<close>
  throws exactly when the device id fails the guard (it is not a number, or it is below 0
  or above 255) or the clock is \<open>2 ^ 48\<close> or later: \<open>Error('Invalid device ID')\<close> in the
  first case, \<open>Error('Timestamp is too far in the future.')\<close> in the second. A device id
  that passes the guard, with a clock below \<open>2 ^ 48\<close>, gives a nonce of 24 bytes. An
  integer passes the guard exactly when it is in \<open>[0, 255]\<close>.
\<close>

theorem getNonce_raises:
  assumes "random_source rnd" and "time \<noteq> 2 ^ 48"
  shows "(isl (getNonce rnd time deviceId) \<longleftrightarrow> \<not> valid_deviceId deviceId \<or> 2 ^ 48 \<le> time)
       \<and> (\<not> valid_deviceId deviceId \<longrightarrow>
             getNonce rnd time deviceId = Inl (Error ''Invalid device ID''))
       \<and> (valid_deviceId deviceId \<and> 2 ^ 48 < time \<longrightarrow>
             getNonce rnd time deviceId = Inl (Error ''Timestamp is too far in the future.''))
       \<and> (valid_deviceId deviceId \<and> time < 2 ^ 48 \<longrightarrow>
             (\<exists>n. getNonce rnd time deviceId = Inr n \<and> length n = 24))
       \<and> (valid_deviceId (Number (Finite (of_int k))) \<longleftrightarrow> 0 \<le> k \<and> k \<le> 255)"
proof -
  have a: "getNonce rnd time deviceId = Inl (Error ''Invalid device ID'')"
    if "\<not> valid_deviceId deviceId"
    using that by (rule getNonce_invalid)
  have b: "getNonce rnd time deviceId = Inl (Error ''Timestamp is too far in the future.'')"
    if "valid_deviceId deviceId" "2 ^ 48 < time"
    using that by (rule getNonce_late)
  have c: "\<exists>n. getNonce rnd time deviceId = Inr n \<and> length n = 24"
    if "valid_deviceId deviceId" "time < 2 ^ 48"
    using getNonce_returns[OF assms(1) that(1), of time] that(2) by simp
  have d: "isl (getNonce rnd time deviceId) \<longleftrightarrow> \<not> valid_deviceId deviceId \<or> 2 ^ 48 \<le> time"
  proof (cases "valid_deviceId deviceId")
    case False
    then show ?thesis using a by simp
  next
    case True
    show ?thesis
    proof (cases "time < 2 ^ 48")
      case True
      with c[OF \<open>valid_deviceId deviceId\<close>] show ?thesis using \<open>valid_deviceId deviceId\<close> by auto
    next
      case False
      with assms(2) have "2 ^ 48 < time" by simp
      with b[OF True] True show ?thesis by simp
    qed
  qed
  show ?thesis using a b c d by (simp add: valid_deviceId_int)
qed

theorem getNonce_raises_witness:
  "random_source demo_randomBytes \<and> (5 :: int) \<noteq> 2 ^ 48
   \<and> \<not> isl (getNonce demo_randomBytes 5 (Number (Finite 255)))
   \<and> isl (getNonce demo_randomBytes 5 (Number (Finite 256)))
   \<and> getNonce demo_randomBytes 5 (Number (Finite 256)) = Inl (Error ''Invalid device ID'')
   \<and> getNonce demo_randomBytes 5 Undefined = Inl (Error ''Invalid device ID'')
   \<and> getNonce demo_randomBytes (2 ^ 48 + 1) (Number (Finite 255))
       = Inl (Error ''Timestamp is too far in the future.'')"
proof -
  have v: "valid_deviceId (Number (Finite 255))" "\<not> valid_deviceId (Number (Finite 256))"
    "\<not> valid_deviceId Undefined"
    by (simp_all add: valid_deviceId_def)
  show ?thesis
    using getNonce_raises[OF random_source_demo, of 5 "Number (Finite 255)"]
      getNonce_raises[OF random_source_demo, of 5 "Number (Finite 256)"]
      getNonce_raises[OF random_source_demo, of 5 Undefined]
      getNonce_raises[OF random_source_demo, of "2 ^ 48 + 1" "Number (Finite 255)"]
      random_source_demo v
    by simp
qed

text \<open>
  C5. Where the library's \<open>open\<close> inverts its \<open>secretbox\<close> under a 24-byte nonce and a
  32-byte key: for every message (the empty one included), every 32-byte key and every
  device id that passes the guard, \<open>encrypt\<close> returns an envelope, and \<open>decrypt\<close> of its
  ciphertext and nonce under the same key returns the message.
\<close>

theorem encrypt_decrypt_roundtrip:
  assumes "opens box sopen" and "random_source rnd" and "length key = 32"
    and "valid_deviceId deviceId" and "time < 2 ^ 48"
  shows "\<exists>e. encrypt box rnd time m key deviceId = Inr e
           \<and> length (nonce e) = 24
           \<and> decrypt sopen (ciphertext e) (nonce e) key = Some m"
proof -
  obtain n where n: "getNonce rnd time deviceId = Inr n" "length n = 24"
    using getNonce_returns[OF assms(2,4), of time] assms(5) by auto
  have "sopen (box m n key) n key = Some m"
    using assms(1,3) n(2) by (simp add: opens_def)
  then show ?thesis by (simp add: encrypt_def decrypt_def n)
qed

theorem encrypt_decrypt_roundtrip_witness:
  "opens demo_secretbox demo_open \<and> random_source demo_randomBytes
   \<and> length (replicate 32 (9 :: byte)) = 32 \<and> valid_deviceId (Number (Finite 7))
   \<and> (5 :: int) < 2 ^ 48
   \<and> (\<exists>e. encrypt demo_secretbox demo_randomBytes 5 [] (replicate 32 9) (Number (Finite 7)) = Inr e
          \<and> length (nonce e) = 24
          \<and> decrypt demo_open (ciphertext e) (nonce e) (replicate 32 9) = Some [])"
proof -
  have v: "valid_deviceId (Number (Finite 7))" by (simp add: valid_deviceId_def)
  show ?thesis
    using encrypt_decrypt_roundtrip[OF opens_demo random_source_demo _ v,
        of "replicate 32 9" 5 "[]"] opens_demo random_source_demo v
    by simp
qed



end
